theory Spec2Isabelle
  imports Main "HOL-Library.AList" "HOL-Library.Word"
begin

section \<open>Python primitives used by the two sorters\<close>

text \<open>
  Text is a list of characters read as code points U+0000..U+00FF. Bytes are 8-bit words.
  What the interpreter, the file system and the third-party libraries (PIL, imagehash,
  hashlib, chardet, PyPDF2, BeautifulSoup) return for a file is recorded in the file's
  record or passed as a parameter; the code of the repository is modelled on top of it.
\<close>

type_synonym byte = "8 word"

unbundle bit_operations_syntax

subsection \<open>\<^verbatim>\<open>str.lower\<close>, \<^verbatim>\<open>str.split\<close>, \<^verbatim>\<open>in\<close>\<close>

definition is_space :: "char \<Rightarrow> bool" where
  "is_space c \<longleftrightarrow> (of_char c :: nat) \<in> {9, 10, 11, 12, 13, 28, 29, 30, 31, 32, 133, 160}"

definition lower_char :: "char \<Rightarrow> char" where
  "lower_char c =
     (let n = (of_char c :: nat)
      in if (65 \<le> n \<and> n \<le> 90) \<or> (192 \<le> n \<and> n \<le> 222 \<and> n \<noteq> 215)
         then char_of (n + 32) else c)"

definition lower :: "string \<Rightarrow> string" where
  "lower s = map lower_char s"

text \<open>\<^verbatim>\<open>s.split()\<close>: the maximal runs of non-whitespace characters.\<close>

function split_ws :: "string \<Rightarrow> string list" where
  "split_ws [] = []"
| "split_ws (c # cs) =
     (if is_space c then split_ws cs
      else (c # takeWhile (\<lambda>x. \<not> is_space x) cs) # split_ws (dropWhile (\<lambda>x. \<not> is_space x) cs))"
  by pat_completeness auto
termination
  by (relation "measure length") (auto simp: length_dropWhile_le less_Suc_eq_le)

text \<open>\<^verbatim>\<open>sub in s\<close> for strings.\<close>

fun contains :: "string \<Rightarrow> string \<Rightarrow> bool" where
  "contains sub [] = (sub = [])"
| "contains sub (c # cs) = (take (length sub) (c # cs) = sub \<or> contains sub cs)"

subsection \<open>\<^verbatim>\<open>PurePath.name\<close> and \<^verbatim>\<open>PurePath.suffix\<close>\<close>

definition path_name :: "string \<Rightarrow> string" where
  "path_name p = rev (takeWhile (\<lambda>c. c \<noteq> CHR ''/'') (rev p))"

text \<open>
  \<^verbatim>\<open>i = name.rfind('.'); return name[i:] if 0 < i < len(name) - 1 else ''\<close>
\<close>

definition suffix :: "string \<Rightarrow> string" where
  "suffix p =
     (let name = path_name p;
          ext = rev (takeWhile (\<lambda>c. c \<noteq> CHR ''.'') (rev name))
      in if CHR ''.'' \<in> set name \<and> ext \<noteq> [] \<and> Suc (length ext) < length name
         then CHR ''.'' # ext else [])"

subsection \<open>Decimal and hexadecimal rendering\<close>

definition digit_char :: "nat \<Rightarrow> char" where
  "digit_char d = char_of (48 + d)"

function dec :: "nat \<Rightarrow> string" where
  "dec n = (if n < 10 then [digit_char n] else dec (n div 10) @ [digit_char (n mod 10)])"
  by pat_completeness auto
termination
  by (relation "measure id") auto

declare dec.simps [simp del]

text \<open>\<^verbatim>\<open>str(i)\<close> for an integer.\<close>

definition str_int :: "int \<Rightarrow> string" where
  "str_int i = (if i < 0 then CHR ''-'' # dec (nat (- i)) else dec (nat i))"

definition zfill :: "nat \<Rightarrow> string \<Rightarrow> string" where
  "zfill w s = replicate (w - length s) CHR ''0'' @ s"

text \<open>\<^verbatim>\<open>f"{i:03d}"\<close>: sign first, then zeros up to a total width of three.\<close>

definition fmt_03d :: "int \<Rightarrow> string" where
  "fmt_03d i = (if i < 0 then CHR ''-'' # zfill 2 (dec (nat (- i))) else zfill 3 (dec (nat i)))"

definition hex_digit :: "nat \<Rightarrow> char" where
  "hex_digit d = ''0123456789abcdef'' ! d"

text \<open>The \<open>k\<close> low hexadecimal digits of \<open>n\<close>, most significant first.\<close>

fun hex_of :: "nat \<Rightarrow> nat \<Rightarrow> string" where
  "hex_of 0 n = []"
| "hex_of (Suc k) n = hex_of k (n div 16) @ [hex_digit (n mod 16)]"


text \<open>\<^verbatim>\<open>hashlib\<close>'s \<^verbatim>\<open>hexdigest()\<close> of a digest of \<open>LENGTH('a)\<close> bits.\<close>

definition hexdigest :: "'a::len word \<Rightarrow> string" where
  "hexdigest w = hex_of (LENGTH('a) div 4) (unat w)"

text \<open>\<^verbatim>\<open>s.encode('utf-8')\<close> for code points below 256.\<close>

definition encode_utf8 :: "string \<Rightarrow> byte list" where
  "encode_utf8 s =
     concat (map (\<lambda>c. let n = (of_char c :: nat)
                       in if n < 128 then [of_nat n]
                          else [of_nat (192 + n div 64), of_nat (128 + n mod 64)]) s)"

section \<open>What the environment returns for a file\<close>

datatype read_result = Text string | UnicodeDecodeError | OtherError

text \<open>
  The outcome of parsing a file with BeautifulSoup: the text of its \<^verbatim>\<open>title\<close> element, if
  any, and whether it has anchors with \<^verbatim>\<open>add_date\<close> or \<^verbatim>\<open>last_modified\<close> attributes.
\<close>

record soup =
  title :: "string option"
  add_date_links :: bool
  last_modified_links :: bool

text \<open>
  \<^item> \<open>path\<close>: \<^verbatim>\<open>str(file_path)\<close>;
  \<^item> \<open>raw\<close>: \<^verbatim>\<open>open(file_path, 'rb').read()\<close>, \<open>None\<close> when it raises;
  \<^item> \<open>average_hash\<close>: \<^verbatim>\<open>imagehash.average_hash\<close> of the image opened and converted to RGB, as
    the 64-bit number it prints, \<open>None\<close> when opening or decoding raises;
  \<^item> \<open>chardet\<close>: \<^verbatim>\<open>chardet.detect(raw_data)['encoding']\<close>;
  \<^item> \<open>read_as e\<close>: \<^verbatim>\<open>open(file_path, 'r', encoding=e).read()\<close>;
  \<^item> \<open>read_ignore\<close>: the same with \<^verbatim>\<open>encoding='utf-8', errors='ignore'\<close>, \<open>None\<close> when it
    raises;
  \<^item> \<open>pdf_pages\<close>: \<^verbatim>\<open>len(PdfReader(f).pages)\<close>, \<open>None\<close> when opening or parsing raises;
  \<^item> \<open>parsed\<close>: the parse of the file read as UTF-8, \<open>None\<close> when reading or parsing raises.
\<close>

record src_file =
  path :: string
  raw :: "byte list option"
  average_hash :: "64 word option"
  chardet :: "string option"
  read_as :: "string \<Rightarrow> read_result"
  read_ignore :: "string option"
  pdf_pages :: "nat option"
  parsed :: "soup option"

section \<open>\<^verbatim>\<open>sort_document.py\<close>: the category resolver\<close>

definition category_mapping :: "(string \<times> string) list" where
  "category_mapping =
    [(''.doc'', ''documents''), (''.docx'', ''documents''), (''.pages'', ''documents''),
     (''.odt'', ''documents''), (''.rtf'', ''notes''),
     (''.xls'', ''spreadsheets''), (''.xlsx'', ''spreadsheets''), (''.numbers'', ''spreadsheets''),
     (''.ods'', ''spreadsheets''), (''.csv'', ''spreadsheets''),
     (''.ppt'', ''presentations''), (''.pptx'', ''presentations''), (''.key'', ''presentations''),
     (''.odp'', ''presentations''),
     (''.txt'', ''notes''), (''.md'', ''notes''),
     (''.html'', ''web''), (''.htm'', ''web''), (''.mht'', ''web''), (''.url'', ''web''),
     (''.webloc'', ''web''),
     (''.zip'', ''archives''), (''.rar'', ''archives''), (''.7z'', ''archives''),
     (''.tar'', ''archives''), (''.gz'', ''archives''), (''.bz2'', ''archives''),
     (''.jpg'', ''images''), (''.jpeg'', ''images''), (''.png'', ''images''), (''.gif'', ''images''),
     (''.bmp'', ''images''), (''.tiff'', ''images''), (''.webp'', ''images''),
     (''.mp3'', ''audio''), (''.wav'', ''audio''), (''.aac'', ''audio''), (''.m4a'', ''audio''),
     (''.ogg'', ''audio''), (''.flac'', ''audio''),
     (''.mp4'', ''video''), (''.mov'', ''video''), (''.avi'', ''video''), (''.mkv'', ''video''),
     (''.wmv'', ''video''), (''.flv'', ''video''),
     (''.py'', ''code''), (''.js'', ''code''), (''.java'', ''code''), (''.cpp'', ''code''),
     (''.c'', ''code''), (''.h'', ''code''), (''.css'', ''code''), (''.php'', ''code''),
     (''.rb'', ''code''), (''.swift'', ''code''), (''.go'', ''code''), (''.rs'', ''code''),
     (''.json'', ''config''), (''.xml'', ''config''), (''.yaml'', ''config''), (''.yml'', ''config''),
     (''.ini'', ''config''), (''.conf'', ''config''), (''.env'', ''config''),
     (''.sql'', ''database''), (''.db'', ''database''), (''.sqlite'', ''database''),
     (''.sqlite3'', ''database'')]"


definition is_bookmark_file :: "src_file \<Rightarrow> bool" where
  "is_bookmark_file f =
     (case parsed f of
        None \<Rightarrow> contains ''bookmark'' (lower (path_name (path f)))
      | Some s \<Rightarrow>
          (case title s of Some t \<Rightarrow> contains ''bookmark'' (lower t) | None \<Rightarrow> False)
          \<or> add_date_links s \<or> last_modified_links s)"

definition get_pdf_page_count :: "src_file \<Rightarrow> nat" where
  "get_pdf_page_count f = (case pdf_pages f of Some n \<Rightarrow> n | None \<Rightarrow> 0)"

definition get_file_category :: "src_file \<Rightarrow> string" where
  "get_file_category f =
     (let ext = lower (suffix (path f))
      in if ext = ''.pdf'' then
           (let page_count = get_pdf_page_count f
            in if page_count > 5 then ''ebooks'' else ''pdfs'')
         else if ext \<in> set [''.html'', ''.htm'', ''.url'', ''.webloc''] then
           (if is_bookmark_file f then ''bookmarks'' else ''web'')
         else (case map_of category_mapping ext of Some c \<Rightarrow> c | None \<Rightarrow> ''other''))"

section \<open>\<^verbatim>\<open>sort_image.py\<close>: signatures and duplicate grouping\<close>

definition image_extensions :: "string list" where
  "image_extensions =
    [''.jpg'', ''.jpeg'', ''.png'', ''.gif'', ''.bmp'', ''.webp'', ''.svg'', ''.tiff'', ''.tif'',
     ''.heic'']"

definition is_image :: "string \<Rightarrow> bool" where
  "is_image p \<longleftrightarrow> lower (suffix p) \<in> set image_extensions"

text \<open>
  \<^verbatim>\<open>FileSorter.compute_file_hash\<close>. \<open>md5\<close> is \<^verbatim>\<open>hashlib.md5\<close> on the concatenation of the
  updates; \<^verbatim>\<open>str(imagehash)\<close> prints the 64 bits as 16 hexadecimal digits. Any exception
  gives \<open>None\<close>.
\<close>

definition fs_compute_file_hash :: "(byte list \<Rightarrow> 128 word) \<Rightarrow> src_file \<Rightarrow> string option" where
  "fs_compute_file_hash md5 f =
     (if is_image (path f) then
        (case average_hash f of None \<Rightarrow> None | Some w \<Rightarrow> Some (hex_of 16 (unat w)))
      else
        (case raw f of
           None \<Rightarrow> None
         | Some bs \<Rightarrow>
             (let file_size = int (length bs);
                  chunk_size = 1024 * 1024;
                  sampled = (if file_size > chunk_size * 2
                             then take (nat chunk_size) bs @ drop (nat (file_size - chunk_size)) bs
                             else bs)
              in Some (hexdigest (md5 (encode_utf8 (str_int file_size) @ sampled))))))"

text \<open>
  The two dicts of \<^verbatim>\<open>find_duplicates\<close> keep insertion order: \<^verbatim>\<open>hash_dict\<close> maps a hash to a
  path, \<^verbatim>\<open>duplicates\<close> maps a hash to the list of paths appended to it.
\<close>

type_synonym hash_dict = "(string \<times> string) list"
type_synonym dup_dict = "(string \<times> string list) list"

text \<open>\<^verbatim>\<open>duplicates.setdefault(h, []).append(p)\<close>\<close>

definition setdefault_append :: "dup_dict \<Rightarrow> string \<Rightarrow> string \<Rightarrow> dup_dict" where
  "setdefault_append duplicates h p =
     AList.update h ((case map_of duplicates h of None \<Rightarrow> [] | Some ps \<Rightarrow> ps) @ [p]) duplicates"

text \<open>\<^verbatim>\<open>sum(c1 != c2 for c1, c2 in zip(file_hash, existing_hash))\<close>\<close>

definition mismatches :: "string \<Rightarrow> string \<Rightarrow> int" where
  "mismatches file_hash existing_hash =
     int (length (filter (\<lambda>(c1, c2). c1 \<noteq> c2) (zip file_hash existing_hash)))"

text \<open>
  The inner loop over the keys of \<^verbatim>\<open>hash_dict\<close>: the first key of the same length within the
  threshold, where the loop breaks.
\<close>

fun find_similar :: "int \<Rightarrow> string \<Rightarrow> string list \<Rightarrow> string option" where
  "find_similar hash_threshold file_hash [] = None"
| "find_similar hash_threshold file_hash (existing_hash # rest) =
     (if length existing_hash = length file_hash
         \<and> mismatches file_hash existing_hash \<le> hash_threshold
      then Some existing_hash
      else find_similar hash_threshold file_hash rest)"

definition fs_find_duplicates_step ::
  "(byte list \<Rightarrow> 128 word) \<Rightarrow> int \<Rightarrow> hash_dict \<times> dup_dict \<Rightarrow> src_file \<Rightarrow> hash_dict \<times> dup_dict" where
  "fs_find_duplicates_step md5 hash_threshold st f =
     (case st of (hash_dict, duplicates) \<Rightarrow>
       (case fs_compute_file_hash md5 f of
          None \<Rightarrow> (hash_dict, duplicates)
        | Some file_hash \<Rightarrow>
            if is_image (path f) then
              (case find_similar hash_threshold file_hash (map fst hash_dict) of
                 Some existing_hash \<Rightarrow>
                   (hash_dict, setdefault_append duplicates existing_hash (path f))
               | None \<Rightarrow> (AList.update file_hash (path f) hash_dict, duplicates))
            else if file_hash \<in> fst ` set hash_dict
              then (hash_dict, setdefault_append duplicates file_hash (path f))
              else (AList.update file_hash (path f) hash_dict, duplicates)))"

text \<open>The loop of \<^verbatim>\<open>find_duplicates\<close> from a given pair of dicts.\<close>

definition fs_find_duplicates_from ::
  "(byte list \<Rightarrow> 128 word) \<Rightarrow> int \<Rightarrow> hash_dict \<times> dup_dict \<Rightarrow> src_file list \<Rightarrow> hash_dict \<times> dup_dict" where
  "fs_find_duplicates_from md5 hash_threshold st files =
     foldl (fs_find_duplicates_step md5 hash_threshold) st files"

definition fs_find_duplicates ::
  "(byte list \<Rightarrow> 128 word) \<Rightarrow> src_file list \<Rightarrow> int \<Rightarrow> dup_dict" where
  "fs_find_duplicates md5 files hash_threshold =
     snd (fs_find_duplicates_from md5 hash_threshold ([], []) files)"

text \<open>
  The groups the grouper holds when the loop ends: under each key of \<^verbatim>\<open>hash_dict\<close> the
  canonical path followed by the paths \<^verbatim>\<open>duplicates\<close> lists under that key.
\<close>

definition group_members :: "hash_dict \<times> dup_dict \<Rightarrow> string \<Rightarrow> string list" where
  "group_members st h =
     (case map_of (fst st) h of
        None \<Rightarrow> []
      | Some p \<Rightarrow> p # (case map_of (snd st) h of None \<Rightarrow> [] | Some ps \<Rightarrow> ps))"

definition same_group :: "hash_dict \<times> dup_dict \<Rightarrow> string \<Rightarrow> string \<Rightarrow> bool" where
  "same_group st p q \<longleftrightarrow>
     (\<exists>h \<in> fst ` set (fst st). p \<in> set (group_members st h) \<and> q \<in> set (group_members st h))"

text \<open>
  \<^verbatim>\<open>main\<close> of \<^verbatim>\<open>sort_image.py\<close>, up to the call of \<^verbatim>\<open>organize_files\<close>: the paths it removes as
  duplicates and the files it hands to the allocator. \<^verbatim>\<open>find_duplicates\<close> is called with
  the default threshold 0.
\<close>

definition fs_duplicate_paths :: "dup_dict \<Rightarrow> string list" where
  "fs_duplicate_paths duplicates =
     concat (map (\<lambda>(hash_value, file_list).
                    if length file_list > 1 then tl file_list else []) duplicates)"

definition fs_unique_files :: "(byte list \<Rightarrow> 128 word) \<Rightarrow> src_file list \<Rightarrow> src_file list" where
  "fs_unique_files md5 files =
     (let duplicate_paths = fs_duplicate_paths (fs_find_duplicates md5 files 0)
      in filter (\<lambda>f. path f \<notin> set duplicate_paths) files)"

section \<open>\<^verbatim>\<open>sort_document.py\<close>: signatures and duplicate grouping\<close>












text \<open>A file nothing can open, read or decode.\<close>

definition unreadable :: "string \<Rightarrow> src_file" where
  "unreadable p =
     \<lparr>path = p, raw = None, average_hash = None, chardet = None,
      read_as = (\<lambda>e. OtherError), read_ignore = None, pdf_pages = None, parsed = None\<rparr>"

section \<open>Invariants of the grouping loops\<close>

text \<open>The length of the signature \<^verbatim>\<open>compute_file_hash\<close> gives a file at path \<open>p\<close>, if it gives one.\<close>

definition signature_length :: "string \<Rightarrow> nat" where
  "signature_length p = (if is_image p then 16 else 32)"

text \<open>Invariant of the loop: the length of a key tells the kind of every path filed under it.\<close>

definition kinds_agree :: "hash_dict \<times> dup_dict \<Rightarrow> bool" where
  "kinds_agree st \<longleftrightarrow>
     (\<forall>h p. map_of (fst st) h = Some p \<longrightarrow> length h = signature_length p)
     \<and> (\<forall>h ps p. map_of (snd st) h = Some ps \<longrightarrow> p \<in> set ps \<longrightarrow> length h = signature_length p)"

text \<open>
  The key under which an iteration of \<^verbatim>\<open>find_duplicates\<close> files a path \<open>p\<close> with hash \<open>h\<close>
  as a duplicate, given the current \<^verbatim>\<open>hash_dict\<close>; \<open>None\<close> when \<open>p\<close> becomes a canonical file.
\<close>

definition group_key :: "int \<Rightarrow> hash_dict \<Rightarrow> string \<Rightarrow> string \<Rightarrow> string option" where
  "group_key t hash_dict p h =
     (if is_image p then find_similar t h (map fst hash_dict)
      else if h \<in> fst ` set hash_dict then Some h else None)"

text \<open>Invariant of the loop: every file of \<open>S\<close> with a signature is a member of the group of its key.\<close>

definition placed ::
  "(byte list \<Rightarrow> 128 word) \<Rightarrow> int \<Rightarrow> hash_dict \<times> dup_dict \<Rightarrow> src_file set \<Rightarrow> bool" where
  "placed md5 t st S \<longleftrightarrow>
     (\<forall>f \<in> S. \<forall>h. fs_compute_file_hash md5 f = Some h \<longrightarrow>
        (\<exists>k. group_key t (fst st) (path f) h = Some k \<and> path f \<in> set (group_members st k)))"

text \<open>
  Invariant of the loop at threshold 0: every path in the dicts is the path of a file of \<open>S\<close>
  whose signature is the key it is filed under.
\<close>

definition from_files ::
  "(byte list \<Rightarrow> 128 word) \<Rightarrow> hash_dict \<times> dup_dict \<Rightarrow> src_file set \<Rightarrow> bool" where
  "from_files md5 st S \<longleftrightarrow>
     (\<forall>h p. map_of (fst st) h = Some p \<longrightarrow>
        (\<exists>f \<in> S. path f = p \<and> fs_compute_file_hash md5 f = Some h))
     \<and> (\<forall>h ps p. map_of (snd st) h = Some ps \<longrightarrow> p \<in> set ps \<longrightarrow>
        (\<exists>f \<in> S. path f = p \<and> fs_compute_file_hash md5 f = Some h))"

section \<open>Files and digests for closed examples\<close>

text \<open>
  A stand-in for \<^verbatim>\<open>hashlib.md5\<close> and \<^verbatim>\<open>hashlib.sha256\<close> in closed examples. The general
  theorems hold for every function in their place.
\<close>

definition toy_digest :: "byte list \<Rightarrow> 'a::len word" where
  "toy_digest bs = foldl (\<lambda>h b. 31 * h + ucast b) 7 bs"

text \<open>An image that decodes, with the given average hash.\<close>

definition image_file :: "string \<Rightarrow> 64 word \<Rightarrow> src_file" where
  "image_file p w = (unreadable p)\<lparr>average_hash := Some w\<rparr>"





section \<open>The batch allocator\<close>

text \<open>
  The destination tree is the list of the paths that exist below \<^verbatim>\<open>dest_base_dir\<close>, each a list of
  components; \<open>[]\<close> is \<^verbatim>\<open>dest_base_dir\<close> itself. The mover (\<^verbatim>\<open>shutil.copy2\<close>, \<^verbatim>\<open>shutil.move\<close>) is
  external: \<open>fails\<close> tells for which source paths it raises, and where it succeeds the
  destination path exists afterwards.
\<close>

type_synonym dest_tree = "string list list"

text \<open>\<^verbatim>\<open>p.mkdir(parents=True, exist_ok=True)\<close>\<close>

definition mkdir :: "dest_tree \<Rightarrow> string list \<Rightarrow> dest_tree" where
  "mkdir t p = foldl (\<lambda>t' k. List.insert (take k p) t') t [0..<Suc (length p)]"

text \<open>\<^verbatim>\<open>folder.glob('*')\<close>: the entries of a folder.\<close>

definition glob_all :: "dest_tree \<Rightarrow> string list \<Rightarrow> string list list" where
  "glob_all t folder = remdups (filter (\<lambda>q. q \<noteq> [] \<and> butlast q = folder) t)"

text \<open>\<^verbatim>\<open>sum(1 for _ in folder.glob('*'))\<close>\<close>

definition file_count :: "dest_tree \<Rightarrow> string list \<Rightarrow> int" where
  "file_count t folder = int (length (glob_all t folder))"

text \<open>\<^verbatim>\<open>f"batch_{n:03d}"\<close>\<close>

definition batch_name :: "int \<Rightarrow> string" where
  "batch_name n = ''batch_'' @ fmt_03d n"

text \<open>
  The loop \<^verbatim>\<open>while True\<close> of \<^verbatim>\<open>get_next_batch_folder\<close>, the same in both sorters, for the batch
  folders of the directory \<open>parent\<close>. It returns the tree, the value of
  \<^verbatim>\<open>self.current_folder_num\<close> and the folder; \<open>None\<close> stands for a loop that never ends.
\<close>

partial_function (option) batch_folder_loop ::
  "int \<Rightarrow> string list \<Rightarrow> dest_tree \<Rightarrow> int \<Rightarrow> (dest_tree \<times> int \<times> string list) option" where
  "batch_folder_loop max_files_per_folder parent t current_folder_num =
     (let folder = parent @ [batch_name current_folder_num];
          t' = mkdir t folder;
          count = file_count t' folder
      in if count < max_files_per_folder then Some (t', current_folder_num, folder)
         else batch_folder_loop max_files_per_folder parent t' (current_folder_num + 1))"

declare batch_folder_loop.simps [code]

text \<open>\<^verbatim>\<open>DocumentSorter.get_next_batch_folder\<close> and \<^verbatim>\<open>FileSorter.get_next_batch_folder\<close>\<close>

definition ds_get_next_batch_folder ::
  "int \<Rightarrow> string \<Rightarrow> dest_tree \<Rightarrow> int \<Rightarrow> (dest_tree \<times> int \<times> string list) option" where
  "ds_get_next_batch_folder max_files_per_folder category t current_folder_num =
     batch_folder_loop max_files_per_folder [category] (mkdir t [category]) current_folder_num"

definition fs_get_next_batch_folder ::
  "int \<Rightarrow> dest_tree \<Rightarrow> int \<Rightarrow> (dest_tree \<times> int \<times> string list) option" where
  "fs_get_next_batch_folder max_files_per_folder t current_folder_num =
     batch_folder_loop max_files_per_folder [] t current_folder_num"

text \<open>
  The fields of the sorter that \<^verbatim>\<open>organize_files\<close> changes, with the destination tree and the
  record \<open>moved_to\<close> of the calls of the mover that succeeded: source path and destination path.
\<close>

record sorter =
  dest :: dest_tree
  current_folder_num :: int
  processed_files :: "string list"
  moved_to :: "(string \<times> string list) list"

text \<open>The body of the loop over the files, after \<^verbatim>\<open>get_next_batch_folder\<close> has returned.\<close>

definition place_file ::
  "(string \<Rightarrow> bool) \<Rightarrow> sorter \<Rightarrow> dest_tree \<times> int \<times> string list \<Rightarrow> src_file \<Rightarrow> sorter" where
  "place_file fails s r f =
     (case r of (t, n, dest_folder) \<Rightarrow>
        if fails (path f) then s\<lparr>dest := t, current_folder_num := n\<rparr>
        else s\<lparr>dest := List.insert (dest_folder @ [path_name (path f)]) t,
               current_folder_num := n,
               processed_files := processed_files s @ [path f],
               moved_to := moved_to s @ [(path f, dest_folder @ [path_name (path f)])]\<rparr>)"

text \<open>
  The loop over the files, the same in both sorters but for the call of
  \<^verbatim>\<open>get_next_batch_folder\<close>: \<^verbatim>\<open>dest_folder = self.get_next_batch_folder(...)\<close>, then the move.
\<close>

fun place_loop ::
  "(dest_tree \<Rightarrow> int \<Rightarrow> (dest_tree \<times> int \<times> string list) option) \<Rightarrow> (string \<Rightarrow> bool)
     \<Rightarrow> sorter \<Rightarrow> src_file list \<Rightarrow> sorter option" where
  "place_loop get_next_batch_folder fails s [] = Some s"
| "place_loop get_next_batch_folder fails s (f # sorted_files) =
     (case get_next_batch_folder (dest s) (current_folder_num s) of
        None \<Rightarrow> None
      | Some r \<Rightarrow> place_loop get_next_batch_folder fails (place_file fails s r f) sorted_files)"

subsection \<open>\<^verbatim>\<open>DocumentSorter.organize_files\<close>\<close>

text \<open>\<^verbatim>\<open>files_by_category\<close>: a dict in insertion order.\<close>

definition files_by_category :: "src_file list \<Rightarrow> (string \<times> src_file list) list" where
  "files_by_category files =
     foldl (\<lambda>m f. let category = get_file_category f
                    in AList.update category
                         ((case map_of m category of None \<Rightarrow> [] | Some fs \<Rightarrow> fs) @ [f]) m)
       [] files"

definition ds_place_files ::
  "int \<Rightarrow> (string \<Rightarrow> bool) \<Rightarrow> string \<Rightarrow> sorter \<Rightarrow> src_file list \<Rightarrow> sorter option" where
  "ds_place_files max_files fails category s sorted_files =
     place_loop (ds_get_next_batch_folder max_files category) fails s sorted_files"

fun ds_organize_categories ::
  "int \<Rightarrow> (string \<Rightarrow> bool) \<Rightarrow> sorter \<Rightarrow> (string \<times> src_file list) list \<Rightarrow> sorter option" where
  "ds_organize_categories max_files fails s [] = Some s"
| "ds_organize_categories max_files fails s ((category, sorted_files) # rest) =
     (case ds_place_files max_files fails category (s\<lparr>current_folder_num := 1\<rparr>) sorted_files of
        None \<Rightarrow> None
      | Some s' \<Rightarrow> ds_organize_categories max_files fails s' rest)"

definition ds_organize_files ::
  "int \<Rightarrow> (string \<Rightarrow> bool) \<Rightarrow> sorter \<Rightarrow> src_file list \<Rightarrow> sorter option" where
  "ds_organize_files max_files fails s files =
     ds_organize_categories max_files fails (s\<lparr>dest := mkdir (dest s) []\<rparr>)
       (files_by_category files)"

subsection \<open>\<^verbatim>\<open>FileSorter.organize_files\<close>\<close>

text \<open>\<^verbatim>\<open>str.strip\<close>, \<^verbatim>\<open>int(s)\<close> and \<^verbatim>\<open>s.split('_')\<close>\<close>

definition strip :: "string \<Rightarrow> string" where
  "strip s = rev (dropWhile is_space (rev (dropWhile is_space s)))"

definition is_digit :: "char \<Rightarrow> bool" where
  "is_digit c \<longleftrightarrow> 48 \<le> (of_char c :: nat) \<and> (of_char c :: nat) \<le> 57"

definition digits_value :: "string \<Rightarrow> nat" where
  "digits_value s = foldl (\<lambda>a c. 10 * a + (of_char c - 48)) 0 s"

definition py_int :: "string \<Rightarrow> int option" where
  "py_int s =
     (let s' = strip s;
          negative = (s' \<noteq> [] \<and> hd s' = CHR ''-'');
          ds = (if s' \<noteq> [] \<and> hd s' \<in> {CHR ''-'', CHR ''+''} then tl s' else s')
      in if ds \<noteq> [] \<and> list_all is_digit ds
         then Some (if negative then - int (digits_value ds) else int (digits_value ds))
         else None)"

fun split_on :: "char \<Rightarrow> string \<Rightarrow> string list" where
  "split_on sep [] = [[]]"
| "split_on sep (c # cs) =
     (if c = sep then [] # split_on sep cs
      else (case split_on sep cs of [] \<Rightarrow> [[c]] | w # ws \<Rightarrow> (c # w) # ws))"

text \<open>The order of paths in one directory: that of their names, by code points.\<close>

fun str_less :: "string \<Rightarrow> string \<Rightarrow> bool" where
  "str_less [] [] = False"
| "str_less [] (b # bs) = True"
| "str_less (a # as) [] = False"
| "str_less (a # as) (b # bs) =
     ((of_char a :: nat) < of_char b \<or> (a = b \<and> str_less as bs))"

definition max_name :: "string list \<Rightarrow> string" where
  "max_name names = foldl (\<lambda>m n. if str_less m n then n else m) (hd names) (tl names)"

text \<open>\<^verbatim>\<open>self.dest_base_dir.glob('batch_*')\<close>, as names.\<close>

definition existing_folders :: "dest_tree \<Rightarrow> string list" where
  "existing_folders t =
     filter (\<lambda>n. take 6 n = ''batch_'') (map last (glob_all t []))"

definition first_folder_num :: "dest_tree \<Rightarrow> int" where
  "first_folder_num t =
     (let folders = existing_folders t
      in if folders \<noteq> [] then
           (let parts = split_on CHR ''_'' (max_name folders)
            in if length parts > 1 then
                 (case py_int (parts ! 1) of Some n \<Rightarrow> n + 1 | None \<Rightarrow> 1)
               else 1)
         else 1)"

definition fs_place_files ::
  "int \<Rightarrow> (string \<Rightarrow> bool) \<Rightarrow> sorter \<Rightarrow> src_file list \<Rightarrow> sorter option" where
  "fs_place_files max_files fails s sorted_files =
     place_loop (fs_get_next_batch_folder max_files) fails s sorted_files"

text \<open>
  \<open>sorted_files\<close> is \<^verbatim>\<open>unique_files\<close> in the order \<^verbatim>\<open>sorted\<close> gives it.
\<close>

definition fs_organize_files ::
  "int \<Rightarrow> (string \<Rightarrow> bool) \<Rightarrow> sorter \<Rightarrow> src_file list \<Rightarrow> sorter option" where
  "fs_organize_files max_files fails s sorted_files =
     (let t = mkdir (dest s) []
      in fs_place_files max_files fails
           (s\<lparr>dest := t, current_folder_num := first_folder_num t\<rparr>) sorted_files)"

text \<open>The sorter as \<^verbatim>\<open>__init__\<close> leaves it, with an empty destination, and a mover that never raises.\<close>

definition new_sorter :: sorter where
  "new_sorter = \<lparr>dest = [], current_folder_num = 1, processed_files = [], moved_to = []\<rparr>"

definition never_fails :: "string \<Rightarrow> bool" where
  "never_fails p = False"

section \<open>Specification of the allocator's loops\<close>

text \<open>
  What a call of \<^verbatim>\<open>get_next_batch_folder\<close> for the batch folders of \<open>parent\<close> does: it returns, the
  folder is the batch folder of the index it leaves in \<^verbatim>\<open>current_folder_num\<close>, that folder has
  room, the folders it passed over are full, and it adds no entry to a batch folder.
\<close>

definition returns_batch_folder ::
  "int \<Rightarrow> string list \<Rightarrow> (dest_tree \<Rightarrow> int \<Rightarrow> (dest_tree \<times> int \<times> string list) option) \<Rightarrow> bool" where
  "returns_batch_folder c parent get_next \<longleftrightarrow>
     (\<forall>t cur. \<exists>t' n.
        get_next t cur = Some (t', n, parent @ [batch_name n])
        \<and> cur \<le> n
        \<and> file_count t' (parent @ [batch_name n]) < c
        \<and> set t \<subseteq> set t'
        \<and> (\<forall>F. length F = Suc (length parent) \<longrightarrow> file_count t' F = file_count t F)
        \<and> (\<forall>k. cur \<le> k \<and> k < n \<longrightarrow> c \<le> file_count t (parent @ [batch_name k])))"

text \<open>
  What the loop over the files does between two states of the sorter: nothing is removed, a
  folder at the level of the batch folders of \<open>parent\<close> ends within capacity or as it was, the
  batch folders below the final index are full, and every new move goes into a batch folder
  of \<open>parent\<close> under the name of the source file.
\<close>

definition allocated :: "int \<Rightarrow> string list \<Rightarrow> src_file set \<Rightarrow> sorter \<Rightarrow> sorter \<Rightarrow> bool" where
  "allocated c parent files s s' \<longleftrightarrow>
     set (dest s) \<subseteq> set (dest s')
     \<and> (\<forall>F. length F = Suc (length parent)
           \<longrightarrow> file_count (dest s') F \<le> max c (file_count (dest s) F))
     \<and> current_folder_num s \<le> current_folder_num s'
     \<and> (\<forall>k. current_folder_num s \<le> k \<and> k < current_folder_num s'
           \<longrightarrow> c \<le> file_count (dest s') (parent @ [batch_name k]))
     \<and> (\<forall>m \<in> set (moved_to s'). m \<in> set (moved_to s) \<or>
           (\<exists>f \<in> files. \<exists>n. current_folder_num s \<le> n \<and> n \<le> current_folder_num s'
              \<and> m = (path f, parent @ [batch_name n, path_name (path f)])))"

section \<open>Properties\<close>

text \<open>
  C8. For a file whose lower-cased extension is \<^verbatim>\<open>.pdf\<close> the category resolver returns
  \<^verbatim>\<open>ebooks\<close> when the page count is greater than 5 and \<^verbatim>\<open>pdfs\<close> otherwise, and a PDF that
  cannot be opened or parsed counts 0 pages, hence is a \<^verbatim>\<open>pdfs\<close> file.
\<close>

theorem pdf_category:
  "lower (suffix (path f)) = ''.pdf'' \<Longrightarrow>
     get_file_category f = (if get_pdf_page_count f > 5 then ''ebooks'' else ''pdfs'')
     \<and> get_pdf_page_count f = (case pdf_pages f of None \<Rightarrow> 0 | Some n \<Rightarrow> n)
     \<and> get_file_category f =
         (case pdf_pages f of None \<Rightarrow> ''pdfs'' | Some n \<Rightarrow> if n > 5 then ''ebooks'' else ''pdfs'')"
  by (simp add: get_file_category_def get_pdf_page_count_def split: option.split)

theorem pdf_category_witness:
  "get_file_category (unreadable ''in/Book.PDF''\<lparr>pdf_pages := Some 10\<rparr>) = ''ebooks''
   \<and> get_file_category (unreadable ''in/memo.pdf''\<lparr>pdf_pages := Some 3\<rparr>) = ''pdfs''
   \<and> get_pdf_page_count (unreadable ''in/broken.pdf'') = 0
   \<and> get_file_category (unreadable ''in/broken.pdf'') = ''pdfs''"
proof -
  have a: "lower (suffix (path (unreadable ''in/Book.PDF''\<lparr>pdf_pages := Some 10\<rparr>))) = ''.pdf''"
    unfolding unreadable_def by code_simp
  have b: "lower (suffix (path (unreadable ''in/memo.pdf''\<lparr>pdf_pages := Some 3\<rparr>))) = ''.pdf''"
    unfolding unreadable_def by code_simp
  have c: "lower (suffix (path (unreadable ''in/broken.pdf''))) = ''.pdf''"
    unfolding unreadable_def by code_simp
  show ?thesis
    using pdf_category [OF a] pdf_category [OF b] pdf_category [OF c]
    by (simp add: unreadable_def)
qed

subsection \<open>Signatures and the grouping loop of \<^verbatim>\<open>sort_image.py\<close>\<close>

lemma length_hex_of: "length (hex_of k n) = k"
  by (induction k arbitrary: n) auto

lemma length_hexdigest: "length (hexdigest (w :: 'a::len word)) = LENGTH('a) div 4"
  by (simp add: hexdigest_def length_hex_of)

lemma fs_hash_length:
  "fs_compute_file_hash md5 f = Some h \<Longrightarrow> length h = (if is_image (path f) then 16 else 32)"
  by (auto simp: fs_compute_file_hash_def length_hex_of length_hexdigest Let_def
           split: if_splits option.splits)

lemma mismatches_self: "mismatches h h = 0"
  by (induction h) (auto simp: mismatches_def)

lemma mismatches_nonneg: "0 \<le> mismatches a b"
  by (simp add: mismatches_def)

lemma mismatches_zero_eq:
  "length a = length b \<Longrightarrow> mismatches a b \<le> 0 \<Longrightarrow> a = b"
proof (induction a b rule: list_induct2)
  case Nil
  then show ?case by simp
next
  case (Cons x xs y ys)
  then show ?case by (auto simp: mismatches_def split: if_splits)
qed

lemma find_similar_Some:
  "find_similar t h ks = Some e \<Longrightarrow> e \<in> set ks \<and> length e = length h \<and> mismatches h e \<le> t"
  by (induction ks) (auto split: if_splits)

lemma find_similar_None:
  "find_similar t h ks = None \<longleftrightarrow> (\<forall>e \<in> set ks. \<not> (length e = length h \<and> mismatches h e \<le> t))"
  by (induction ks) auto

lemma find_similar_append:
  "find_similar t h (ks @ ks') =
     (case find_similar t h ks of Some e \<Rightarrow> Some e | None \<Rightarrow> find_similar t h ks')"
  by (induction ks) auto

lemma map_of_setdefault_append:
  "map_of (setdefault_append d h p) =
     (map_of d)(h \<mapsto> (case map_of d h of None \<Rightarrow> [] | Some ps \<Rightarrow> ps) @ [p])"
  by (simp add: setdefault_append_def update_conv')

lemma keys_setdefault_append:
  "fst ` set (setdefault_append d h p) = insert h (fst ` set d)"
  by (simp add: setdefault_append_def dom_update)

lemma Some_eq_map_of: "(Some x = map_of d h) = (map_of d h = Some x)"
  by auto

lemma fs_hash_signature_length:
  "fs_compute_file_hash md5 f = Some h \<Longrightarrow> length h = signature_length (path f)"
  by (simp add: fs_hash_length signature_length_def)

lemma kinds_agree_step:
  assumes "kinds_agree st"
  shows "kinds_agree (fs_find_duplicates_step md5 t st f)"
proof (cases st)
  case (Pair hd dups)
  show ?thesis
  proof (cases "fs_compute_file_hash md5 f")
    case None
    with Pair assms show ?thesis by (simp add: fs_find_duplicates_step_def)
  next
    case (Some h)
    note len = fs_hash_signature_length [OF Some]
    show ?thesis
    proof (cases "find_similar t h (map fst hd)")
      case None
      with Pair Some assms len show ?thesis
        by (auto simp: fs_find_duplicates_step_def kinds_agree_def update_conv' Some_eq_map_of
                 map_of_setdefault_append split: option.splits if_splits)
    next
      case (Some e)
      from find_similar_Some [OF Some] len have "length e = signature_length (path f)" by simp
      with Pair \<open>fs_compute_file_hash md5 f = Some h\<close> Some assms len show ?thesis
        by (auto simp: fs_find_duplicates_step_def kinds_agree_def map_of_setdefault_append
                 update_conv' Some_eq_map_of split: option.splits if_splits)
    qed
  qed
qed

lemma kinds_agree_from:
  "kinds_agree st \<Longrightarrow> kinds_agree (fs_find_duplicates_from md5 t st files)"
  unfolding fs_find_duplicates_from_def
  by (induction files arbitrary: st) (auto simp: kinds_agree_step)

lemma kinds_agree_empty: "kinds_agree ([], [])"
  by (simp add: kinds_agree_def)

lemma group_members_kind:
  "kinds_agree st \<Longrightarrow> p \<in> set (group_members st h) \<Longrightarrow> length h = signature_length p"
  by (auto simp: kinds_agree_def group_members_def Some_eq_map_of split: option.splits)

lemma update_fresh: "k \<notin> fst ` set al \<Longrightarrow> AList.update k v al = al @ [(k, v)]"
  by (induction al) auto

lemma group_key_Some_key:
  "group_key t hs p h = Some k \<Longrightarrow> k \<in> fst ` set hs"
  by (auto simp: group_key_def dest: find_similar_Some split: if_splits)

lemma group_key_append:
  "group_key t hs p h = Some k \<Longrightarrow> group_key t (hs @ hs') p h = Some k"
  by (auto simp: group_key_def find_similar_append split: if_splits)

lemma group_key_None_fresh:
  "0 \<le> t \<Longrightarrow> group_key t hs p h = None \<Longrightarrow> h \<notin> fst ` set hs"
  using mismatches_self [of h]
  by (auto simp: group_key_def find_similar_None split: if_splits)

lemma group_key_new:
  "0 \<le> t \<Longrightarrow> group_key t hs p h = None \<Longrightarrow> group_key t (hs @ [(h, v)]) p h = Some h"
  by (auto simp: group_key_def find_similar_append mismatches_self split: if_splits)

text \<open>The three outcomes of one iteration.\<close>

lemma fs_step_cases [consumes 1, case_names skip dup new]:
  assumes "0 \<le> t"
  obtains
    (skip) "fs_compute_file_hash md5 g = None"
      "fs_find_duplicates_step md5 t (hs, dups) g = (hs, dups)"
  | (dup) h e where "fs_compute_file_hash md5 g = Some h"
      "group_key t hs (path g) h = Some e"
      "fs_find_duplicates_step md5 t (hs, dups) g = (hs, setdefault_append dups e (path g))"
  | (new) h where "fs_compute_file_hash md5 g = Some h"
      "group_key t hs (path g) h = None" "h \<notin> fst ` set hs"
      "fs_find_duplicates_step md5 t (hs, dups) g = (hs @ [(h, path g)], dups)"
proof (cases "fs_compute_file_hash md5 g")
  case None
  then show ?thesis using skip by (simp add: fs_find_duplicates_step_def)
next
  case (Some h)
  show ?thesis
  proof (cases "group_key t hs (path g) h")
    case None
    note fresh = group_key_None_fresh [OF assms None]
    have "fs_find_duplicates_step md5 t (hs, dups) g = (hs @ [(h, path g)], dups)"
      using Some None fresh
      by (auto simp: fs_find_duplicates_step_def group_key_def update_fresh split: if_splits)
    then show ?thesis using new Some None fresh by blast
  next
    case (Some e)
    have "fs_find_duplicates_step md5 t (hs, dups) g = (hs, setdefault_append dups e (path g))"
      using Some \<open>fs_compute_file_hash md5 g = Some h\<close>
      by (auto simp: fs_find_duplicates_step_def group_key_def split: if_splits)
    then show ?thesis using dup Some \<open>fs_compute_file_hash md5 g = Some h\<close> by blast
  qed
qed

lemma set_group_members:
  "p \<in> set (group_members st h) \<longleftrightarrow>
     (\<exists>c. map_of (fst st) h = Some c \<and>
          (p = c \<or> (\<exists>ps. map_of (snd st) h = Some ps \<and> p \<in> set ps)))"
  by (auto simp: group_members_def Some_eq_map_of split: option.splits)

lemma map_of_append_fresh:
  "k \<notin> fst ` set al \<Longrightarrow> map_of (al @ [(k, v)]) = (map_of al)(k \<mapsto> v)"
  using update_conv' [of k v al] by (simp add: update_fresh)

lemma group_members_mono_dup:
  "p \<in> set (group_members (hs, dups) k) \<Longrightarrow>
   p \<in> set (group_members (hs, setdefault_append dups e q) k)"
  by (auto simp: set_group_members map_of_setdefault_append split: option.splits)

lemma group_members_mono_new:
  "p \<in> set (group_members (hs, dups) k) \<Longrightarrow>
   p \<in> set (group_members (hs @ [(h, q)], dups) k)"
  by (auto simp: set_group_members map_add_def)

lemma placed_step:
  assumes t: "0 \<le> t" and inv: "placed md5 t st S"
  shows "placed md5 t (fs_find_duplicates_step md5 t st g) (insert g S)"
proof (cases st)
  case (Pair hs dups)
  have old: "\<exists>k. group_key t hs (path f) h = Some k \<and> path f \<in> set (group_members (hs, dups) k)"
    if "f \<in> S" "fs_compute_file_hash md5 f = Some h" for f h
    using inv that Pair by (auto simp: placed_def)
  from t show ?thesis
  proof (cases rule: fs_step_cases [of t md5 g hs dups])
    case skip
    then show ?thesis using inv Pair by (auto simp: placed_def)
  next
    case (dup h e)
    have "\<exists>k. group_key t hs (path f) h' = Some k
              \<and> path f \<in> set (group_members (hs, setdefault_append dups e (path g)) k)"
      if "f \<in> insert g S" "fs_compute_file_hash md5 f = Some h'" for f h'
    proof (cases "f = g")
      case True
      from group_key_Some_key [OF dup(2)] obtain c where "map_of hs e = Some c"
        by (metis domD dom_map_of_conv_image_fst)
      then have "path g \<in> set (group_members (hs, setdefault_append dups e (path g)) e)"
        by (simp add: set_group_members map_of_setdefault_append)
      with True that dup show ?thesis by auto
    next
      case False
      with that old [of f h'] show ?thesis by (auto intro: group_members_mono_dup)
    qed
    then show ?thesis using Pair dup(3) by (auto simp: placed_def)
  next
    case (new h)
    have "\<exists>k. group_key t (hs @ [(h, path g)]) (path f) h' = Some k
              \<and> path f \<in> set (group_members (hs @ [(h, path g)], dups) k)"
      if "f \<in> insert g S" "fs_compute_file_hash md5 f = Some h'" for f h'
    proof (cases "f = g")
      case True
      have "map_of (hs @ [(h, path g)]) h = Some (path g)"
        using new(3) by (simp add: map_of_append_fresh del: map_of_append)
      then have "path g \<in> set (group_members (hs @ [(h, path g)], dups) h)"
        by (simp add: set_group_members del: map_of_append)
      with True that new group_key_new [OF t new(2)] show ?thesis by auto
    next
      case False
      with that old [of f h'] show ?thesis
        by (auto intro: group_members_mono_new group_key_append)
    qed
    then show ?thesis using Pair new(4) by (auto simp: placed_def)
  qed
qed

lemma placed_from:
  "0 \<le> t \<Longrightarrow> placed md5 t st S \<Longrightarrow>
   placed md5 t (fs_find_duplicates_from md5 t st files) (S \<union> set files)"
  unfolding fs_find_duplicates_from_def
proof (induction files arbitrary: st S)
  case Nil
  then show ?case by simp
next
  case (Cons g files)
  from Cons.IH [OF Cons.prems(1) placed_step [OF Cons.prems, of g]]
  show ?case by simp
qed

lemma placed_all:
  "0 \<le> t \<Longrightarrow> placed md5 t (fs_find_duplicates_from md5 t ([], []) files) (set files)"
  using placed_from [of t md5 "([], [])" "{}" files] by (simp add: placed_def)

lemma from_files_mono: "from_files md5 st S \<Longrightarrow> S \<subseteq> S' \<Longrightarrow> from_files md5 st S'"
  unfolding from_files_def by blast

lemma from_files_step:
  assumes inv: "from_files md5 st S"
  shows "from_files md5 (fs_find_duplicates_step md5 0 st g) (insert g S)"
proof (cases st)
  case (Pair hs dups)
  note inv' = from_files_mono [OF inv subset_insertI [of S g]]
  have "(0::int) \<le> 0" by simp
  then show ?thesis
  proof (cases rule: fs_step_cases [of 0 md5 g hs dups])
    case skip
    then show ?thesis using inv' Pair by simp
  next
    case (dup h e)
    have "e = h"
    proof (cases "is_image (path g)")
      case True
      with dup(2) have "find_similar 0 h (map fst hs) = Some e" by (simp add: group_key_def)
      from find_similar_Some [OF this] mismatches_zero_eq [of h e] show ?thesis by simp
    next
      case False
      with dup(2) show ?thesis by (simp add: group_key_def split: if_splits)
    qed
    with dup inv' Pair show ?thesis
      by (fastforce simp: from_files_def map_of_setdefault_append Some_eq_map_of
                    split: option.splits if_splits)
  next
    case (new h)
    with inv' Pair show ?thesis
      by (fastforce simp: from_files_def map_add_def Some_eq_map_of
                    split: option.splits if_splits)
  qed
qed

lemma from_files_from:
  "from_files md5 st S \<Longrightarrow>
   from_files md5 (fs_find_duplicates_from md5 0 st files) (S \<union> set files)"
  unfolding fs_find_duplicates_from_def
proof (induction files arbitrary: st S)
  case Nil
  then show ?case by simp
next
  case (Cons g files)
  from Cons.IH [OF from_files_step [OF Cons.prems, of g]]
  show ?case by simp
qed

lemma from_files_all:
  "from_files md5 (fs_find_duplicates_from md5 0 ([], []) files) (set files)"
  using from_files_from [of md5 "([], [])" "{}" files] by (simp add: from_files_def)

lemma group_member_from_file:
  "from_files md5 st S \<Longrightarrow> p \<in> set (group_members st h) \<Longrightarrow>
   \<exists>f \<in> S. path f = p \<and> fs_compute_file_hash md5 f = Some h"
  unfolding from_files_def set_group_members by blast

lemma dup_keys_step:
  assumes "fst ` set (snd st) \<subseteq> fst ` set (fst st)"
  shows "fst ` set (snd (fs_find_duplicates_step md5 t st f))
           \<subseteq> fst ` set (fst (fs_find_duplicates_step md5 t st f))"
proof (cases st)
  case (Pair hs dups)
  show ?thesis
  proof (cases "fs_compute_file_hash md5 f")
    case None
    with Pair assms show ?thesis by (simp add: fs_find_duplicates_step_def)
  next
    case (Some h)
    show ?thesis
    proof (cases "find_similar t h (map fst hs)")
      case None
      with Pair Some assms show ?thesis
        by (auto simp: fs_find_duplicates_step_def dom_update keys_setdefault_append)
    next
      case similar: (Some e)
      from find_similar_Some [OF similar] have "e \<in> fst ` set hs" by simp
      with Pair Some similar assms show ?thesis
        by (auto simp: fs_find_duplicates_step_def dom_update keys_setdefault_append)
    qed
  qed
qed

lemma dup_keys_from:
  "fst ` set (snd st) \<subseteq> fst ` set (fst st) \<Longrightarrow>
   fst ` set (snd (fs_find_duplicates_from md5 t st files))
     \<subseteq> fst ` set (fst (fs_find_duplicates_from md5 t st files))"
  unfolding fs_find_duplicates_from_def
  by (induction files arbitrary: st) (auto simp: dup_keys_step simp del: split_paired_All)

lemma duplicates_in_group:
  assumes "map_of (fs_find_duplicates md5 files t) h = Some ps"
  shows "set ps \<subseteq> set (group_members (fs_find_duplicates_from md5 t ([], []) files) h)"
proof -
  let ?st = "fs_find_duplicates_from md5 t ([], []) files"
  from assms have ps: "map_of (snd ?st) h = Some ps" by (simp add: fs_find_duplicates_def)
  then have "h \<in> fst ` set (snd ?st)" by (metis domI dom_map_of_conv_image_fst)
  with dup_keys_from [of "([], [])" md5 t files] have "h \<in> fst ` set (fst ?st)" by auto
  then obtain c where "map_of (fst ?st) h = Some c" by (metis domD dom_map_of_conv_image_fst)
  with ps show ?thesis by (auto simp: set_group_members)
qed

text \<open>
  C10. In \<^verbatim>\<open>sort_image.py\<close> no group holds both an image and a file that is not an image: any two
  members of the group of a key (the canonical path and the paths listed as its duplicates)
  are of the same kind, and every list \<^verbatim>\<open>find_duplicates\<close> returns lies within the group of its
  key.
\<close>

theorem groups_homogeneous:
  "(p \<in> set (group_members (fs_find_duplicates_from md5 t ([], []) files) h) \<longrightarrow>
    q \<in> set (group_members (fs_find_duplicates_from md5 t ([], []) files) h) \<longrightarrow>
    is_image p = is_image q)
   \<and> (\<forall>ps. map_of (fs_find_duplicates md5 files t) h = Some ps \<longrightarrow>
         set ps \<subseteq> set (group_members (fs_find_duplicates_from md5 t ([], []) files) h))"
  using group_members_kind [OF kinds_agree_from [OF kinds_agree_empty], of p md5 t files h]
    group_members_kind [OF kinds_agree_from [OF kinds_agree_empty], of q md5 t files h]
    duplicates_in_group [of md5 files t h]
  by (auto simp: signature_length_def split: if_splits)

theorem groups_homogeneous_witness:
  "''in/a.jpg'' \<in> set (group_members (fs_find_duplicates_from toy_digest 0 ([], [])
       [image_file ''in/a.jpg'' 5, image_file ''in/b.png'' 5]) ''0000000000000005'')
   \<and> ''in/b.png'' \<in> set (group_members (fs_find_duplicates_from toy_digest 0 ([], [])
       [image_file ''in/a.jpg'' 5, image_file ''in/b.png'' 5]) ''0000000000000005'')
   \<and> map_of (fs_find_duplicates toy_digest [image_file ''in/a.jpg'' 5, image_file ''in/b.png'' 5] 0)
        ''0000000000000005'' = Some [''in/b.png'']
   \<and> is_image ''in/a.jpg'' = is_image ''in/b.png''"
proof -
  have a: "''in/a.jpg'' \<in> set (group_members (fs_find_duplicates_from toy_digest 0 ([], [])
       [image_file ''in/a.jpg'' 5, image_file ''in/b.png'' 5]) ''0000000000000005'')"
    by code_simp
  have b: "''in/b.png'' \<in> set (group_members (fs_find_duplicates_from toy_digest 0 ([], [])
       [image_file ''in/a.jpg'' 5, image_file ''in/b.png'' 5]) ''0000000000000005'')"
    by code_simp
  have c: "map_of (fs_find_duplicates toy_digest [image_file ''in/a.jpg'' 5, image_file ''in/b.png'' 5] 0)
        ''0000000000000005'' = Some [''in/b.png'']"
    by code_simp
  from a b c groups_homogeneous [of "''in/a.jpg''" toy_digest 0
      "[image_file ''in/a.jpg'' 5, image_file ''in/b.png'' 5]" "''0000000000000005''" "''in/b.png''"]
  show ?thesis by blast
qed

text \<open>
  C4 (as amended). Two paths that \<^verbatim>\<open>find_duplicates\<close> puts in one group at threshold 0, the
  default, are in one group at every threshold \<open>t \<ge> 0\<close>.
\<close>

theorem threshold_zero_groups_persist:
  assumes t: "0 \<le> t"
    and grouped: "same_group (fs_find_duplicates_from md5 0 ([], []) files) p q"
  shows "same_group (fs_find_duplicates_from md5 t ([], []) files) p q"
proof -
  let ?s0 = "fs_find_duplicates_from md5 0 ([], []) files"
  let ?st = "fs_find_duplicates_from md5 t ([], []) files"
  from grouped obtain h where
    p: "p \<in> set (group_members ?s0 h)" and q: "q \<in> set (group_members ?s0 h)"
    by (auto simp: same_group_def)
  from group_member_from_file [OF from_files_all p] obtain f where
    f: "f \<in> set files" "path f = p" "fs_compute_file_hash md5 f = Some h" by blast
  from group_member_from_file [OF from_files_all q] obtain g where
    g: "g \<in> set files" "path g = q" "fs_compute_file_hash md5 g = Some h" by blast
  from fs_hash_length [OF f(3)] fs_hash_length [OF g(3)] f(2) g(2)
  have kind: "is_image p = is_image q" by (auto split: if_splits)
  from placed_all [OF t, of md5 files] f obtain k where
    k: "group_key t (fst ?st) p h = Some k" "p \<in> set (group_members ?st k)"
    by (auto simp: placed_def)
  from placed_all [OF t, of md5 files] g obtain k' where
    k': "group_key t (fst ?st) q h = Some k'" "q \<in> set (group_members ?st k')"
    by (auto simp: placed_def)
  from k(1) k'(1) kind have "k' = k" by (simp add: group_key_def)
  moreover from group_key_Some_key [OF k(1)] have "k \<in> fst ` set (fst ?st)" .
  ultimately show ?thesis using k(2) k'(2) unfolding same_group_def by blast
qed

theorem threshold_zero_groups_persist_witness:
  "(0::int) \<le> 3
   \<and> same_group (fs_find_duplicates_from toy_digest 0 ([], [])
        [image_file ''in/a.jpg'' 0, image_file ''in/b.jpg'' 0x111, image_file ''in/c.jpg'' 0x111])
        ''in/b.jpg'' ''in/c.jpg''
   \<and> same_group (fs_find_duplicates_from toy_digest 3 ([], [])
        [image_file ''in/a.jpg'' 0, image_file ''in/b.jpg'' 0x111, image_file ''in/c.jpg'' 0x111])
        ''in/b.jpg'' ''in/c.jpg''"
proof -
  have t: "(0::int) \<le> 3" by simp
  have g: "same_group (fs_find_duplicates_from toy_digest 0 ([], [])
        [image_file ''in/a.jpg'' 0, image_file ''in/b.jpg'' 0x111, image_file ''in/c.jpg'' 0x111])
        ''in/b.jpg'' ''in/c.jpg''"
    by code_simp
  from t g threshold_zero_groups_persist [OF t g] show ?thesis by blast
qed

text \<open>
  The claim as stated fails: at threshold 1 the paths \<^verbatim>\<open>b.jpg\<close> and \<^verbatim>\<open>c.jpg\<close> are in one group, at
  threshold 2 the scan files \<^verbatim>\<open>c.jpg\<close> under the earlier key of \<^verbatim>\<open>a.jpg\<close> and the two are apart.
\<close>

theorem threshold_monotonicity_counterexample:
  "same_group (fs_find_duplicates_from toy_digest 1 ([], [])
      [image_file ''in/a.jpg'' 0, image_file ''in/b.jpg'' 0x111, image_file ''in/c.jpg'' 0x11])
      ''in/b.jpg'' ''in/c.jpg''
   \<and> \<not> same_group (fs_find_duplicates_from toy_digest 2 ([], [])
      [image_file ''in/a.jpg'' 0, image_file ''in/b.jpg'' 0x111, image_file ''in/c.jpg'' 0x11])
      ''in/b.jpg'' ''in/c.jpg''"
  by code_simp

text \<open>
  C1. \<^verbatim>\<open>main\<close> of \<^verbatim>\<open>sort_image.py\<close> on two images with the same average hash:
  \<^verbatim>\<open>find_duplicates\<close> lists the second under the hash of the first, \<^verbatim>\<open>main\<close> takes that list
  for the whole group and keeps its first entry, so no path is marked duplicate and both
  files go to \<^verbatim>\<open>organize_files\<close>.
\<close>

theorem image_main_keeps_both_of_two:
  "fs_find_duplicates toy_digest [image_file ''in/a.jpg'' 5, image_file ''in/b.jpg'' 5] 0
     = [(''0000000000000005'', [''in/b.jpg''])]
   \<and> fs_duplicate_paths
       (fs_find_duplicates toy_digest [image_file ''in/a.jpg'' 5, image_file ''in/b.jpg'' 5] 0) = []
   \<and> map path (fs_unique_files toy_digest [image_file ''in/a.jpg'' 5, image_file ''in/b.jpg'' 5])
     = [''in/a.jpg'', ''in/b.jpg'']"
  by code_simp

subsection \<open>Pairs of images and the threshold\<close>













subsection \<open>Signatures and the grouping loop of \<^verbatim>\<open>sort_document.py\<close>\<close>

lemma concat_split_ws: "concat (split_ws s) = filter (\<lambda>c. \<not> is_space c) s"
proof (induction s rule: split_ws.induct)
  case 1
  then show ?case by simp
next
  case (2 c cs)
  show ?case
  proof (cases "is_space c")
    case True
    with 2 show ?thesis by simp
  next
    case False
    have "filter (\<lambda>c. \<not> is_space c) cs
        = takeWhile (\<lambda>x. \<not> is_space x) cs
          @ filter (\<lambda>c. \<not> is_space c) (dropWhile (\<lambda>x. \<not> is_space x) cs)"
      by (metis (mono_tags, lifting) filter_append filter_id_conv set_takeWhileD
          takeWhile_dropWhile_id)
    with False 2 show ?thesis by simp
  qed
qed









subsection \<open>Files without a signature\<close>
























section \<open>Properties of the batch allocator\<close>

subsection \<open>Batch names\<close>

lemma of_char_digit_char: "d < 10 \<Longrightarrow> (of_char (digit_char d) :: nat) = 48 + d"
  by (simp add: digit_char_def)

lemma dec_unfold:
  "dec n = (if n < 10 then [digit_char n] else dec (n div 10) @ [digit_char (n mod 10)])"
  by (rule dec.simps)

lemma dec_digits: "c \<in> set (dec n) \<Longrightarrow> is_digit c"
proof (induction n rule: dec.induct)
  case (1 n)
  show ?case
  proof (cases "n < 10")
    case True
    with "1.prems" show ?thesis
      by (subst (asm) dec_unfold) (simp add: is_digit_def of_char_digit_char)
  next
    case False
    with "1.prems" "1.IH" show ?thesis
      by (subst (asm) dec_unfold) (auto simp: is_digit_def of_char_digit_char)
  qed
qed

lemma digits_value_snoc: "digits_value (s @ [c]) = 10 * digits_value s + (of_char c - 48)"
  by (simp add: digits_value_def)

lemma digits_value_dec: "digits_value (dec n) = n"
proof (induction n rule: dec.induct)
  case (1 n)
  show ?case
  proof (cases "n < 10")
    case True
    then show ?thesis
      by (subst dec_unfold) (simp add: digits_value_def of_char_digit_char)
  next
    case False
    with "1.IH" show ?thesis
      by (subst dec_unfold) (simp add: digits_value_snoc of_char_digit_char)
  qed
qed

lemma digits_value_zeros: "digits_value (replicate k CHR ''0'' @ s) = digits_value s"
proof -
  have "foldl (\<lambda>a c. 10 * a + (of_char c - 48)) 0 (replicate k CHR ''0'') = (0::nat)"
    by (induction k) auto
  then show ?thesis by (simp add: digits_value_def)
qed

lemma digits_value_zfill: "digits_value (zfill w s) = digits_value s"
  by (simp add: zfill_def digits_value_zeros)

lemma zfill_digits: "\<forall>c \<in> set s. is_digit c \<Longrightarrow> c \<in> set (zfill w s) \<Longrightarrow> is_digit c"
  by (auto simp: zfill_def is_digit_def)

lemma dec_nonempty: "dec n \<noteq> []"
  by (subst dec_unfold) simp

lemma zfill_nonempty: "s \<noteq> [] \<Longrightarrow> zfill w s \<noteq> []"
  by (simp add: zfill_def)

lemma hd_zfill_dec_digit: "is_digit (hd (zfill w (dec n)))"
  using zfill_digits [of "dec n" "hd (zfill w (dec n))" w] dec_digits zfill_nonempty [OF dec_nonempty]
  by (metis list.set_sel(1))

lemma fmt_03d_value:
  "fmt_03d i = (if i < 0 then CHR ''-'' # zfill 2 (dec (nat (- i))) else zfill 3 (dec (nat i)))"
  by (rule fmt_03d_def)

lemma fmt_03d_inj: "fmt_03d i = fmt_03d j \<Longrightarrow> i = j"
proof -
  assume eq: "fmt_03d i = fmt_03d j"
  have minus: "\<not> is_digit CHR ''-''" by (simp add: is_digit_def)
  consider "i < 0" "j < 0" | "0 \<le> i" "0 \<le> j" | "i < 0" "0 \<le> j" | "0 \<le> i" "j < 0"
    by linarith
  then show "i = j"
  proof cases
    case 1
    with eq have "zfill 2 (dec (nat (- i))) = zfill 2 (dec (nat (- j)))"
      by (simp add: fmt_03d_def)
    then have "digits_value (zfill 2 (dec (nat (- i)))) = digits_value (zfill 2 (dec (nat (- j))))"
      by simp
    with 1 show ?thesis by (simp add: digits_value_zfill digits_value_dec)
  next
    case 2
    with eq have "zfill 3 (dec (nat i)) = zfill 3 (dec (nat j))"
      by (simp add: fmt_03d_def)
    then have "digits_value (zfill 3 (dec (nat i))) = digits_value (zfill 3 (dec (nat j)))"
      by simp
    with 2 show ?thesis by (simp add: digits_value_zfill digits_value_dec)
  next
    case 3
    with eq have "CHR ''-'' # zfill 2 (dec (nat (- i))) = zfill 3 (dec (nat j))"
      by (simp add: fmt_03d_def)
    then have "hd (zfill 3 (dec (nat j))) = CHR ''-''" by (metis list.sel(1))
    with hd_zfill_dec_digit [of 3 "nat j"] minus show ?thesis by simp
  next
    case 4
    with eq have "CHR ''-'' # zfill 2 (dec (nat (- j))) = zfill 3 (dec (nat i))"
      by (simp add: fmt_03d_def)
    then have "hd (zfill 3 (dec (nat i))) = CHR ''-''" by (metis list.sel(1))
    with hd_zfill_dec_digit [of 3 "nat i"] minus show ?thesis by simp
  qed
qed

lemma batch_name_inj: "batch_name i = batch_name j \<Longrightarrow> i = j"
  by (simp add: batch_name_def fmt_03d_inj)

lemma length_dec_small: "n < 10 \<Longrightarrow> length (dec n) = 1"
  by (subst dec_unfold) simp

lemma length_dec_le3: "n < 1000 \<Longrightarrow> length (dec n) \<le> 3"
proof -
  assume n: "n < 1000"
  show ?thesis
  proof (cases "n < 10")
    case True
    then show ?thesis by (simp add: length_dec_small)
  next
    case False
    have two: "length (dec (n div 10)) \<le> 2"
    proof (cases "n div 10 < 10")
      case True
      then show ?thesis by (simp add: length_dec_small)
    next
      case False
      from n have "n div 10 div 10 < 10" by simp
      with False show ?thesis
        by (subst dec_unfold) (simp add: length_dec_small)
    qed
    with False show ?thesis by (subst dec_unfold) simp
  qed
qed

lemma length_fmt_03d: "0 \<le> n \<Longrightarrow> n \<le> 999 \<Longrightarrow> length (fmt_03d n) = 3"
  using length_dec_le3 [of "nat n"] by (simp add: fmt_03d_def zfill_def)

lemma length_fmt_03d_ge: "3 \<le> length (fmt_03d n)"
proof -
  have "w \<le> w - l + l" for w l :: nat by arith
  then show ?thesis by (auto simp: fmt_03d_def zfill_def)
qed

subsection \<open>The destination tree\<close>

lemma set_mkdir: "set (mkdir t p) = set t \<union> (\<lambda>k. take k p) ` {..length p}"
proof -
  have "set (foldl (\<lambda>t' k. List.insert (take k p) t') t ks) = set t \<union> (\<lambda>k. take k p) ` set ks"
    for ks
    by (induction ks arbitrary: t) auto
  from this [of "[0..<Suc (length p)]"]
  have "set (mkdir t p) = set t \<union> (\<lambda>k. take k p) ` set [0..<Suc (length p)]"
    by (simp only: mkdir_def)
  moreover have "set [0..<Suc (length p)] = {..length p}"
    by (simp only: set_upt) auto
  ultimately show ?thesis by (simp only:)
qed

lemma file_count_card:
  "file_count t folder = int (card {q \<in> set t. q \<noteq> [] \<and> butlast q = folder})"
proof -
  have "set (filter (\<lambda>q. q \<noteq> [] \<and> butlast q = folder) t)
      = {q \<in> set t. q \<noteq> [] \<and> butlast q = folder}"
    by auto
  then show ?thesis
    by (simp add: file_count_def glob_all_def length_remdups_card_conv)
qed

lemma file_count_nonneg: "0 \<le> file_count t folder"
  by (simp add: file_count_def)

lemma file_count_mono: "set t \<subseteq> set t' \<Longrightarrow> file_count t folder \<le> file_count t' folder"
  unfolding file_count_card
  by (auto intro!: card_mono)

lemma file_count_mkdir:
  assumes len: "length p \<le> length folder"
  shows "file_count (mkdir t p) folder = file_count t folder"
proof -
  have "q \<in> set t" if q: "q \<in> set (mkdir t p)" "q \<noteq> []" "butlast q = folder" for q
  proof (rule ccontr)
    assume "q \<notin> set t"
    with q(1) have "q \<in> (\<lambda>k. take k p) ` {..length p}" by (simp only: set_mkdir Un_iff) simp
    then obtain k where "q = take k p" by (rule imageE)
    then have "length q \<le> length p" by simp
    moreover from q(3) length_butlast [of q] have "length folder = length q - 1" by simp
    moreover from q(2) have "0 < length q" by simp
    ultimately show False using len by arith
  qed
  moreover have "set t \<subseteq> set (mkdir t p)" by (simp only: set_mkdir) simp
  ultimately have "{q \<in> set (mkdir t p). q \<noteq> [] \<and> butlast q = folder}
      = {q \<in> set t. q \<noteq> [] \<and> butlast q = folder}"
    by blast
  then show ?thesis by (simp only: file_count_card)
qed

lemma file_count_insert_other:
  "butlast q \<noteq> folder \<Longrightarrow> file_count (List.insert q t) folder = file_count t folder"
proof -
  assume "butlast q \<noteq> folder"
  then have "{r \<in> set (List.insert q t). r \<noteq> [] \<and> butlast r = folder}
      = {r \<in> set t. r \<noteq> [] \<and> butlast r = folder}"
    by auto
  then show ?thesis by (simp add: file_count_card)
qed

lemma file_count_insert_le:
  "file_count (List.insert q t) folder \<le> file_count t folder + 1"
proof -
  have "{r \<in> set (List.insert q t). r \<noteq> [] \<and> butlast r = folder}
      \<subseteq> insert q {r \<in> set t. r \<noteq> [] \<and> butlast r = folder}"
    by auto
  then have "card {r \<in> set (List.insert q t). r \<noteq> [] \<and> butlast r = folder}
      \<le> card (insert q {r \<in> set t. r \<noteq> [] \<and> butlast r = folder})"
    by (intro card_mono) auto
  also have "\<dots> \<le> Suc (card {r \<in> set t. r \<noteq> [] \<and> butlast r = folder})"
    by (simp add: card_insert_le_m1 card_insert_if)
  finally show ?thesis by (simp add: file_count_card)
qed

text \<open>Beyond some index no batch folder of a directory has an entry.\<close>

lemma batch_folders_bounded:
  "\<exists>B. \<forall>k \<ge> B. file_count t (parent @ [batch_name k]) = 0"
proof -
  let ?K = "{k. parent @ [batch_name k] \<in> butlast ` set t}"
  have "inj (\<lambda>k. parent @ [batch_name k])"
    by (auto simp: inj_def dest: batch_name_inj)
  then have fin: "finite ?K"
    using finite_vimageI [of "butlast ` set t" "\<lambda>k. parent @ [batch_name k]"]
    by (simp add: vimage_def)
  have empty: "file_count t (parent @ [batch_name k]) = 0" if "k \<notin> ?K" for k
  proof -
    from that have "parent @ [batch_name k] \<notin> butlast ` set t" by simp
    then have "{q \<in> set t. q \<noteq> [] \<and> butlast q = parent @ [batch_name k]} = {}"
      by force
    then show ?thesis by (simp add: file_count_card)
  qed
  show ?thesis
  proof (cases "?K = {}")
    case True
    with empty show ?thesis by auto
  next
    case False
    have "file_count t (parent @ [batch_name k]) = 0" if "k \<ge> Max ?K + 1" for k
    proof (rule empty)
      show "k \<notin> ?K"
      proof
        assume "k \<in> ?K"
        with fin have "k \<le> Max ?K" by (rule Max_ge)
        with that show False by simp
      qed
    qed
    then show ?thesis by blast
  qed
qed

subsection \<open>The loop of \<^verbatim>\<open>get_next_batch_folder\<close>\<close>

lemma batch_folder_loop_bounded:
  assumes c: "0 < c"
    and B: "\<forall>k \<ge> B. file_count t (parent @ [batch_name k]) = 0"
  shows "\<exists>t' n. batch_folder_loop c parent t cur = Some (t', n, parent @ [batch_name n])
           \<and> cur \<le> n
           \<and> file_count t' (parent @ [batch_name n]) < c
           \<and> set t \<subseteq> set t'
           \<and> (\<forall>F. length parent < length F \<longrightarrow> file_count t' F = file_count t F)
           \<and> (\<forall>k. cur \<le> k \<and> k < n \<longrightarrow> c \<le> file_count t (parent @ [batch_name k]))"
  using B
proof (induction "nat (B - cur)" arbitrary: cur t rule: less_induct)
  case less
  let ?folder = "parent @ [batch_name cur]"
  let ?t1 = "mkdir t ?folder"
  have same: "file_count ?t1 F = file_count t F" if "length parent < length F" for F
    using that by (intro file_count_mkdir) simp
  have sub: "set t \<subseteq> set ?t1" by (simp only: set_mkdir) simp
  show ?case
  proof (cases "file_count ?t1 ?folder < c")
    case True
    then have "batch_folder_loop c parent t cur = Some (?t1, cur, ?folder)"
      by (subst batch_folder_loop.simps) (simp add: Let_def)
    moreover from same
    have "\<forall>F. length parent < length F \<longrightarrow> file_count ?t1 F = file_count t F" by simp
    ultimately show ?thesis using True sub by auto
  next
    case False
    then have full: "c \<le> file_count t ?folder" using same [of ?folder] by simp
    have "cur < B"
    proof (rule ccontr)
      assume "\<not> cur < B"
      then have "B \<le> cur" by simp
      with less.prems have "file_count t ?folder = 0" by blast
      with full c show False by simp
    qed
    then have smaller: "nat (B - (cur + 1)) < nat (B - cur)" by simp
    have B1: "\<forall>k \<ge> B. file_count ?t1 (parent @ [batch_name k]) = 0"
      using less.prems same by simp
    from less.hyps [OF smaller B1] obtain t' n where
      r: "batch_folder_loop c parent ?t1 (cur + 1) = Some (t', n, parent @ [batch_name n])"
        "cur + 1 \<le> n" "file_count t' (parent @ [batch_name n]) < c" "set ?t1 \<subseteq> set t'"
        "\<forall>F. length parent < length F \<longrightarrow> file_count t' F = file_count ?t1 F"
        "\<forall>k. cur + 1 \<le> k \<and> k < n \<longrightarrow> c \<le> file_count ?t1 (parent @ [batch_name k])"
      by blast
    from False r(1) have "batch_folder_loop c parent t cur = Some (t', n, parent @ [batch_name n])"
      by (subst batch_folder_loop.simps) (simp add: Let_def)
    moreover have "\<forall>k. cur \<le> k \<and> k < n \<longrightarrow> c \<le> file_count t (parent @ [batch_name k])"
    proof (intro allI impI)
      fix k assume k: "cur \<le> k \<and> k < n"
      show "c \<le> file_count t (parent @ [batch_name k])"
      proof (cases "k = cur")
        case True
        with full show ?thesis by simp
      next
        case False
        with k have "cur + 1 \<le> k \<and> k < n" by simp
        with r(6) have "c \<le> file_count ?t1 (parent @ [batch_name k])" by blast
        with same [of "parent @ [batch_name k]"] show ?thesis by simp
      qed
    qed
    moreover from r(2) have "cur \<le> n" by simp
    moreover from sub r(4) have "set t \<subseteq> set t'" by blast
    moreover from r(5) same
    have "\<forall>F. length parent < length F \<longrightarrow> file_count t' F = file_count t F" by simp
    ultimately show ?thesis using r(3) by blast
  qed
qed

lemma batch_folder_loop_returns:
  assumes "0 < c"
  shows "\<exists>t' n. batch_folder_loop c parent t cur = Some (t', n, parent @ [batch_name n])
           \<and> cur \<le> n
           \<and> file_count t' (parent @ [batch_name n]) < c
           \<and> set t \<subseteq> set t'
           \<and> (\<forall>F. length parent < length F \<longrightarrow> file_count t' F = file_count t F)
           \<and> (\<forall>k. cur \<le> k \<and> k < n \<longrightarrow> c \<le> file_count t (parent @ [batch_name k]))"
  using batch_folders_bounded [of t parent] batch_folder_loop_bounded [OF assms] by blast

text \<open>With a capacity that is not positive the loop never returns.\<close>

lemma batch_folder_loop_Some_positive:
  assumes "batch_folder_loop c parent t cur = Some r"
  shows "0 < c"
proof (rule batch_folder_loop.raw_induct [where P = "\<lambda>c parent t cur r. 0 < c", OF _ assms])
  fix loop c parent t cur r
  assume IH: "\<And>c parent t cur r. loop c parent t cur = Some r \<Longrightarrow> (0::int) < c"
    and eq: "(let folder = parent @ [batch_name cur];
                  t' = mkdir t folder; count = file_count t' folder
              in if count < c then Some (t', cur, folder)
                 else loop c parent t' (cur + 1)) = Some r"
  show "0 < c"
  proof (cases "file_count (mkdir t (parent @ [batch_name cur])) (parent @ [batch_name cur]) < c")
    case True
    with file_count_nonneg [of "mkdir t (parent @ [batch_name cur])" "parent @ [batch_name cur]"]
    show ?thesis by simp
  next
    case False
    with eq have "loop c parent (mkdir t (parent @ [batch_name cur])) (cur + 1) = Some r"
      by (simp add: Let_def)
    then show ?thesis by (rule IH)
  qed
qed

lemma batch_folder_loop_diverges: "c \<le> 0 \<Longrightarrow> batch_folder_loop c parent t cur = None"
  using batch_folder_loop_Some_positive [of c parent t cur] by (cases "batch_folder_loop c parent t cur") auto

subsection \<open>The loop over the files\<close>

lemma ds_get_next_returns:
  assumes "0 < c"
  shows "returns_batch_folder c [category] (ds_get_next_batch_folder c category)"
  unfolding returns_batch_folder_def
proof (intro allI)
  fix t cur
  let ?t0 = "mkdir t [category]"
  have same0: "file_count ?t0 F = file_count t F" if "length F = 2" for F
    using that by (intro file_count_mkdir) simp
  have sub0: "set t \<subseteq> set ?t0" by (simp only: set_mkdir) simp
  from batch_folder_loop_returns [OF assms, of "[category]" ?t0 cur] obtain t' n where
    r: "batch_folder_loop c [category] ?t0 cur = Some (t', n, [category] @ [batch_name n])"
      "cur \<le> n" "file_count t' ([category] @ [batch_name n]) < c" "set ?t0 \<subseteq> set t'"
      "\<forall>F. length [category] < length F \<longrightarrow> file_count t' F = file_count ?t0 F"
      "\<forall>k. cur \<le> k \<and> k < n \<longrightarrow> c \<le> file_count ?t0 ([category] @ [batch_name k])"
    by blast
  have "ds_get_next_batch_folder c category t cur = Some (t', n, [category] @ [batch_name n])"
    using r(1) by (simp add: ds_get_next_batch_folder_def)
  moreover from sub0 r(4) have "set t \<subseteq> set t'" by blast
  moreover have "\<forall>F. length F = Suc (length [category]) \<longrightarrow> file_count t' F = file_count t F"
    using r(5) same0 by simp
  moreover have "\<forall>k. cur \<le> k \<and> k < n \<longrightarrow> c \<le> file_count t ([category] @ [batch_name k])"
    using r(6) same0 by simp
  ultimately show "\<exists>t' n. ds_get_next_batch_folder c category t cur
        = Some (t', n, [category] @ [batch_name n])
      \<and> cur \<le> n \<and> file_count t' ([category] @ [batch_name n]) < c \<and> set t \<subseteq> set t'
      \<and> (\<forall>F. length F = Suc (length [category]) \<longrightarrow> file_count t' F = file_count t F)
      \<and> (\<forall>k. cur \<le> k \<and> k < n \<longrightarrow> c \<le> file_count t ([category] @ [batch_name k]))"
    using r(2,3) by blast
qed

lemma fs_get_next_returns:
  assumes "0 < c"
  shows "returns_batch_folder c [] (fs_get_next_batch_folder c)"
  unfolding returns_batch_folder_def fs_get_next_batch_folder_def
proof (intro allI)
  fix t cur
  from batch_folder_loop_returns [OF assms, of "[]" t cur] obtain t' n where
    r: "batch_folder_loop c [] t cur = Some (t', n, [] @ [batch_name n])"
      "cur \<le> n" "file_count t' ([] @ [batch_name n]) < c" "set t \<subseteq> set t'"
      "\<forall>F. length ([]::string list) < length F \<longrightarrow> file_count t' F = file_count t F"
      "\<forall>k. cur \<le> k \<and> k < n \<longrightarrow> c \<le> file_count t ([] @ [batch_name k])"
    by blast
  from r(5) have "\<forall>F. length F = Suc (length ([]::string list))
      \<longrightarrow> file_count t' F = file_count t F"
    by (auto simp: length_Suc_conv)
  with r(1,2,3,4,6)
  show "\<exists>t' n. batch_folder_loop c [] t cur = Some (t', n, [] @ [batch_name n])
      \<and> cur \<le> n \<and> file_count t' ([] @ [batch_name n]) < c \<and> set t \<subseteq> set t'
      \<and> (\<forall>F. length F = Suc (length ([]::string list)) \<longrightarrow> file_count t' F = file_count t F)
      \<and> (\<forall>k. cur \<le> k \<and> k < n \<longrightarrow> c \<le> file_count t ([] @ [batch_name k]))"
    by blast
qed

lemma allocated_refl: "allocated c parent files s s"
  by (simp add: allocated_def)

lemma allocated_trans:
  assumes 1: "allocated c parent A s1 s2" and 2: "allocated c parent B s2 s3"
  shows "allocated c parent (A \<union> B) s1 s3"
  unfolding allocated_def
proof (intro conjI allI impI ballI)
  from 1 2 show "set (dest s1) \<subseteq> set (dest s3)" by (auto simp: allocated_def)
  from 1 2 show "current_folder_num s1 \<le> current_folder_num s3" by (auto simp: allocated_def)
next
  fix F :: "string list" assume len: "length F = Suc (length parent)"
  from 1 len have "file_count (dest s2) F \<le> max c (file_count (dest s1) F)"
    by (simp add: allocated_def)
  moreover from 2 len have "file_count (dest s3) F \<le> max c (file_count (dest s2) F)"
    by (simp add: allocated_def)
  ultimately show "file_count (dest s3) F \<le> max c (file_count (dest s1) F)" by simp
next
  fix k assume k: "current_folder_num s1 \<le> k \<and> k < current_folder_num s3"
  show "c \<le> file_count (dest s3) (parent @ [batch_name k])"
  proof (cases "k < current_folder_num s2")
    case True
    with k 1 have "c \<le> file_count (dest s2) (parent @ [batch_name k])"
      by (simp add: allocated_def)
    moreover from 2 have "set (dest s2) \<subseteq> set (dest s3)" by (simp add: allocated_def)
    then have "file_count (dest s2) (parent @ [batch_name k])
        \<le> file_count (dest s3) (parent @ [batch_name k])"
      by (rule file_count_mono)
    ultimately show ?thesis by simp
  next
    case False
    with k 2 show ?thesis by (simp add: allocated_def)
  qed
next
  fix m assume m: "m \<in> set (moved_to s3)"
  from 1 have c12: "current_folder_num s1 \<le> current_folder_num s2" by (simp add: allocated_def)
  from 2 have c23: "current_folder_num s2 \<le> current_folder_num s3" by (simp add: allocated_def)
  from 2 m consider "m \<in> set (moved_to s2)"
    | f n where "f \<in> B" "current_folder_num s2 \<le> n" "n \<le> current_folder_num s3"
        "m = (path f, parent @ [batch_name n, path_name (path f)])"
    unfolding allocated_def by blast
  then show "m \<in> set (moved_to s1) \<or>
      (\<exists>f \<in> A \<union> B. \<exists>n. current_folder_num s1 \<le> n \<and> n \<le> current_folder_num s3
         \<and> m = (path f, parent @ [batch_name n, path_name (path f)]))"
  proof cases
    case 1
    with \<open>allocated c parent A s1 s2\<close> consider "m \<in> set (moved_to s1)"
      | f n where "f \<in> A" "current_folder_num s1 \<le> n" "n \<le> current_folder_num s2"
          "m = (path f, parent @ [batch_name n, path_name (path f)])"
      unfolding allocated_def by blast
    then show ?thesis
    proof cases
      case 1
      then show ?thesis by simp
    next
      case (2 f n)
      with c23 have "f \<in> A \<union> B" "current_folder_num s1 \<le> n" "n \<le> current_folder_num s3"
        by simp_all
      with 2(4) show ?thesis by blast
    qed
  next
    case (2 f n)
    with c12 have "f \<in> A \<union> B" "current_folder_num s1 \<le> n" "n \<le> current_folder_num s3"
      by simp_all
    with 2(4) show ?thesis by blast
  qed
qed

lemma allocated_step:
  assumes t: "set (dest s) \<subseteq> set t"
    and n: "current_folder_num s \<le> n"
    and room: "file_count t (parent @ [batch_name n]) < c"
    and same: "\<forall>F. length F = Suc (length parent) \<longrightarrow> file_count t F = file_count (dest s) F"
    and full: "\<forall>k. current_folder_num s \<le> k \<and> k < n
                 \<longrightarrow> c \<le> file_count (dest s) (parent @ [batch_name k])"
  shows "allocated c parent {f} s (place_file fails s (t, n, parent @ [batch_name n]) f)"
proof (cases "fails (path f)")
  case True
  then have s': "place_file fails s (t, n, parent @ [batch_name n]) f
      = s\<lparr>dest := t, current_folder_num := n\<rparr>"
    by (simp add: place_file_def)
  show ?thesis unfolding s' allocated_def using t n same full by simp
next
  case False
  let ?q = "parent @ [batch_name n] @ [path_name (path f)]"
  let ?t' = "List.insert ?q t"
  from False have s': "place_file fails s (t, n, parent @ [batch_name n]) f
      = s\<lparr>dest := ?t', current_folder_num := n,
          processed_files := processed_files s @ [path f],
          moved_to := moved_to s @ [(path f, ?q)]\<rparr>"
    by (simp add: place_file_def)
  have bq: "butlast ?q = parent @ [batch_name n]"
    by (simp add: butlast_append)
  have bound: "file_count ?t' F \<le> max c (file_count (dest s) F)"
    if len: "length F = Suc (length parent)" for F
  proof (cases "F = parent @ [batch_name n]")
    case True
    from file_count_insert_le [of ?q t F] room True show ?thesis by simp
  next
    case False
    with bq have "butlast ?q \<noteq> F" by simp
    then have "file_count ?t' F = file_count t F" by (rule file_count_insert_other)
    with same len show ?thesis by simp
  qed
  have grow: "file_count t F \<le> file_count ?t' F" for F
    by (rule file_count_mono) auto
  have full': "c \<le> file_count ?t' (parent @ [batch_name k])"
    if "current_folder_num s \<le> k \<and> k < n" for k
  proof -
    from that full have "c \<le> file_count (dest s) (parent @ [batch_name k])" by blast
    also from same have "\<dots> = file_count t (parent @ [batch_name k])" by simp
    also note grow
    finally show ?thesis .
  qed
  from t have sub: "set (dest s) \<subseteq> set ?t'" by auto
  show ?thesis unfolding s' allocated_def using sub n bound full' by auto
qed

lemma place_loop_allocated:
  assumes g: "returns_batch_folder c parent g"
  shows "\<exists>s'. place_loop g fails s files = Some s' \<and> allocated c parent (set files) s s'"
proof (induction files arbitrary: s)
  case Nil
  show ?case by (simp add: allocated_refl)
next
  case (Cons f files)
  from g obtain t n where
    r: "g (dest s) (current_folder_num s) = Some (t, n, parent @ [batch_name n])"
      "current_folder_num s \<le> n" "file_count t (parent @ [batch_name n]) < c"
      "set (dest s) \<subseteq> set t"
      "\<forall>F. length F = Suc (length parent) \<longrightarrow> file_count t F = file_count (dest s) F"
      "\<forall>k. current_folder_num s \<le> k \<and> k < n
         \<longrightarrow> c \<le> file_count (dest s) (parent @ [batch_name k])"
    unfolding returns_batch_folder_def by blast
  let ?s1 = "place_file fails s (t, n, parent @ [batch_name n]) f"
  have step: "allocated c parent {f} s ?s1"
    using r(4,2,3,5,6) by (rule allocated_step)
  from Cons.IH [of ?s1] obtain s' where
    s': "place_loop g fails ?s1 files = Some s'" "allocated c parent (set files) ?s1 s'"
    by blast
  from allocated_trans [OF step s'(2)] have "allocated c parent (set (f # files)) s s'"
    by simp
  with r(1) s'(1) show ?case by simp
qed

end
